theory Spec2Isabelle
  imports Main
begin

section \<open>Text as Python sees it\<close>

text \<open>
  The converter of \<^verbatim>\<open>migrate_to_sqlserver.py\<close> works on Python \<^verbatim>\<open>str\<close> values.
  A document is modelled as a \<^typ>\<open>string\<close>: a list of characters, one \<^typ>\<open>char\<close> per
  code point. The type \<^typ>\<open>char\<close> has 256 values, so the model covers the documents whose
  code points lie in 0..255; the two character classes the code relies on
  (\<^verbatim>\<open>str.strip\<close>'s white space and the regular expression class \<^verbatim>\<open>\w\<close>) are given
  for exactly that range.
\<close>

abbreviation newline :: char where
  "newline \<equiv> CHR 0x0A"

abbreviation quote :: char where
  "quote \<equiv> CHR 0x27"

definition isspace :: "char \<Rightarrow> bool" where
  \<comment> \<open>what \<^verbatim>\<open>str.strip()\<close> removes: TAB, LF, VT, FF, CR, FS, GS, RS, US, space, NEL, NBSP\<close>
  "isspace c = (let n = (of_char c :: nat) in
     (9 \<le> n \<and> n \<le> 13) \<or> (28 \<le> n \<and> n \<le> 32) \<or> n = 133 \<or> n = 160)"

definition is_word :: "char \<Rightarrow> bool" where
  \<comment> \<open>the class \<^verbatim>\<open>\w\<close> of a \<^verbatim>\<open>str\<close> pattern: alphanumeric code points and the underscore\<close>
  "is_word c = (let n = (of_char c :: nat) in
     (48 \<le> n \<and> n \<le> 57) \<or> (65 \<le> n \<and> n \<le> 90) \<or> n = 95 \<or> (97 \<le> n \<and> n \<le> 122) \<or>
     n = 170 \<or> n = 178 \<or> n = 179 \<or> n = 181 \<or> n = 185 \<or> n = 186 \<or>
     (188 \<le> n \<and> n \<le> 190) \<or> (192 \<le> n \<and> n \<le> 214) \<or> (216 \<le> n \<and> n \<le> 246) \<or>
     (248 \<le> n \<and> n \<le> 255))"

fun startswith :: "string \<Rightarrow> string \<Rightarrow> bool" where
  \<comment> \<open>\<^verbatim>\<open>s.startswith(p)\<close>; also "pattern \<open>p\<close> matches literally at the head of \<open>s\<close>"\<close>
  "startswith s [] = True"
| "startswith [] (p # ps) = False"
| "startswith (c # cs) (p # ps) = (c = p \<and> startswith cs ps)"

definition endswith :: "string \<Rightarrow> string \<Rightarrow> bool" where
  \<comment> \<open>\<^verbatim>\<open>s.endswith(p)\<close>\<close>
  "endswith s p = startswith (rev s) (rev p)"

fun occurs :: "string \<Rightarrow> string \<Rightarrow> bool" where
  \<comment> \<open>\<open>occurs p s\<close>: the literal \<open>p\<close> matches at some position of \<open>s\<close> (Python's \<^verbatim>\<open>p in s\<close>)\<close>
  "occurs p [] = (p = [])"
| "occurs p (c # cs) = (startswith (c # cs) p \<or> occurs p cs)"

definition strip :: "string \<Rightarrow> string" where
  \<comment> \<open>\<^verbatim>\<open>line.strip()\<close>: white space removed at both ends\<close>
  "strip s = rev (dropWhile isspace (rev (dropWhile isspace s)))"

fun split_nl :: "string \<Rightarrow> string list" where
  \<comment> \<open>\<^verbatim>\<open>content.split('\n')\<close>: never empty, the empty text gives one empty line\<close>
  "split_nl [] = [[]]"
| "split_nl (c # cs) =
     (if c = newline then [] # split_nl cs
      else (case split_nl cs of [] \<Rightarrow> [[c]] | l # ls \<Rightarrow> (c # l) # ls))"

fun join_nl :: "string list \<Rightarrow> string" where
  \<comment> \<open>\<^verbatim>\<open>'\n'.join(output_lines)\<close>\<close>
  "join_nl [] = []"
| "join_nl [l] = l"
| "join_nl (l # m # ls) = l @ newline # join_nl (m # ls)"


section \<open>The substitutions\<close>

text \<open>
  \<^verbatim>\<open>str.replace(old, new)\<close>, and \<^verbatim>\<open>re.sub\<close> with a pattern that has no special
  character (rules 2, 3 and 4): the text is scanned from the left, each occurrence of
  \<open>old\<close> found at the current position is replaced and the scan goes on behind it, so
  occurrences that overlap an earlier one are not seen. The code only passes a non-empty
  \<open>old\<close>; for the empty one the model keeps the text.
\<close>

fun replace_str :: "string \<Rightarrow> string \<Rightarrow> string \<Rightarrow> string" where
  "replace_str old new [] = []"
| "replace_str old new (c # cs) =
     (if old \<noteq> [] \<and> startswith (c # cs) old
      then new @ replace_str old new (drop (length old - 1) cs)
      else c # replace_str old new cs)"

text \<open>
  The tail \<^verbatim>\<open>.*?;\<close> of rules 1, 5, 6 and 7, tried at the text behind the keyword. The
  star is lazy, so the match ends at the first semicolon; without \<^verbatim>\<open>re.DOTALL\<close> the dot
  does not match a newline, and a newline met before any semicolon makes the attempt fail.
  The result is the text behind the match.
\<close>

fun lazy_to_semicolon :: "bool \<Rightarrow> string \<Rightarrow> string option" where
  "lazy_to_semicolon dotall [] = None"
| "lazy_to_semicolon dotall (c # cs) =
     (if c = CHR '';'' then Some cs
      else if c = newline \<and> \<not> dotall then None
      else lazy_to_semicolon dotall cs)"

definition match_stmt :: "string \<Rightarrow> bool \<Rightarrow> string \<Rightarrow> string option" where
  \<comment> \<open>the pattern \<^verbatim>\<open>KW.*?;\<close> tried at the head of \<open>s\<close>\<close>
  "match_stmt kw dotall s =
     (if startswith s kw then lazy_to_semicolon dotall (drop (length kw) s) else None)"

lemma lazy_to_semicolon_shorter:
  "lazy_to_semicolon dotall s = Some rest \<Longrightarrow> length rest < length s"
  by (induction s) (auto split: if_splits)

lemma match_stmt_shorter:
  "match_stmt kw dotall s = Some rest \<Longrightarrow> length rest < length s"
  unfolding match_stmt_def
  by (auto split: if_splits dest!: lazy_to_semicolon_shorter)

text \<open>
  \<^verbatim>\<open>re.sub(r'KW.*?;', '', content)\<close>: the leftmost match is deleted and the search goes
  on behind it; where the pattern does not match, the character is kept.
\<close>

function re_sub_stmt :: "string \<Rightarrow> bool \<Rightarrow> string \<Rightarrow> string" where
  "re_sub_stmt kw dotall [] = []"
| "re_sub_stmt kw dotall (c # cs) =
     (case match_stmt kw dotall (c # cs) of
        Some rest \<Rightarrow> re_sub_stmt kw dotall rest
      | None \<Rightarrow> c # re_sub_stmt kw dotall cs)"
  by pat_completeness auto
termination
  by (relation "measure (\<lambda>(kw, dotall, s). length s)")
     (auto dest: match_stmt_shorter)

text \<open>
  \<^verbatim>\<open>re.sub(r'INSERT INTO (\w+)', r'INSERT INTO [\1]', content)\<close>: the group is the
  longest run of word characters behind the keyword, and it must not be empty.
\<close>

function re_sub_insert :: "string \<Rightarrow> string" where
  "re_sub_insert [] = []"
| "re_sub_insert (c # cs) =
     (if startswith (c # cs) ''INSERT INTO '' \<and> takeWhile is_word (drop 11 cs) \<noteq> []
      then ''INSERT INTO ['' @ takeWhile is_word (drop 11 cs) @ '']''
           @ re_sub_insert (dropWhile is_word (drop 11 cs))
      else c # re_sub_insert cs)"
  by pat_completeness auto
termination
  by (relation "measure length")
     (auto intro: le_less_trans [OF length_dropWhile_le])

definition if_not_exists_guard :: string where
  \<comment> \<open>the replacement text of rule 4; its last line is \<^verbatim>\<open>CREATE TABLE\<close>\<close>
  "if_not_exists_guard =
     ''IF NOT EXISTS (SELECT * FROM sys.objects WHERE object_id = OBJECT_ID(N''
     @ [quote] @ ''[dbo].[{table}]'' @ [quote] @ '') AND type in (N''
     @ [quote] @ ''U'' @ [quote] @ ''))'' @ [newline] @ ''CREATE TABLE''"

definition rule1 :: "string \<Rightarrow> string" where
  "rule1 = re_sub_stmt ''PRAGMA'' False"

definition rule2 :: "string \<Rightarrow> string" where
  "rule2 = replace_str ''BEGIN TRANSACTION;'' []"

definition rule3 :: "string \<Rightarrow> string" where
  "rule3 = replace_str ''COMMIT;'' []"

definition rule4 :: "string \<Rightarrow> string" where
  "rule4 = replace_str ''CREATE TABLE IF NOT EXISTS'' if_not_exists_guard"

definition rule5 :: "string \<Rightarrow> string" where
  "rule5 = re_sub_stmt ''CREATE TABLE'' True"

definition rule6 :: "string \<Rightarrow> string" where
  "rule6 = re_sub_stmt ''CREATE INDEX'' False"

definition rule7 :: "string \<Rightarrow> string" where
  "rule7 = re_sub_stmt ''CREATE UNIQUE INDEX'' False"

definition rule8 :: "string \<Rightarrow> string" where
  "rule8 = re_sub_insert"

definition rule9_zero :: "string \<Rightarrow> string" where
  "rule9_zero = replace_str [quote, CHR ''0'', quote] ''0''"

definition rule9_one :: "string \<Rightarrow> string" where
  "rule9_one = replace_str [quote, CHR ''1'', quote] ''1''"

definition rule10 :: "string \<Rightarrow> string" where
  "rule10 = replace_str [quote, quote] ''NULL''"

definition deletion_rules :: "string \<Rightarrow> string" where
  \<comment> \<open>lines 15 to 23 of the source, rules 1 to 7\<close>
  "deletion_rules content = rule7 (rule6 (rule5 (rule4 (rule3 (rule2 (rule1 content))))))"

definition before_rule9 :: "string \<Rightarrow> string" where
  \<comment> \<open>lines 15 to 28\<close>
  "before_rule9 content = rule8 (deletion_rules content)"

definition before_rule10 :: "string \<Rightarrow> string" where
  \<comment> \<open>lines 15 to 32\<close>
  "before_rule10 content = rule9_one (rule9_zero (before_rule9 content))"

definition substitute :: "string \<Rightarrow> string" where
  \<comment> \<open>lines 15 to 35: the value of \<^verbatim>\<open>content\<close> when the line pass starts\<close>
  "substitute content = rule10 (before_rule10 content)"


section \<open>The line pass\<close>

fun output_lines :: "string list \<Rightarrow> string list" where
  \<comment> \<open>the loop of lines 39 to 45; the result is the list \<^verbatim>\<open>output_lines\<close>\<close>
  "output_lines [] = []"
| "output_lines (l # ls) =
     (let line = strip l in
      if line \<noteq> [] \<and> \<not> startswith line ''--''
      then (if endswith line '';'' then [line, ''GO''] else [line]) @ output_lines ls
      else output_lines ls)"

definition converted_lines :: "string \<Rightarrow> string list" where
  \<comment> \<open>the list \<^verbatim>\<open>output_lines\<close> built from the text read\<close>
  "converted_lines content = output_lines (split_nl (substitute content))"

definition convert_text :: "string \<Rightarrow> string" where
  \<comment> \<open>the text written to the output file\<close>
  "convert_text content = join_nl (converted_lines content)"


section \<open>Files, output and external processes\<close>

text \<open>
  The state the two functions act on: the text files by path, which paths can be opened
  for writing, what has been printed, and the external commands run so far together with
  the way the environment answers a command. Files hold text as \<^verbatim>\<open>open(..., 'r')\<close>
  decodes it; line ends are written as they are (the POSIX \<^verbatim>\<open>os.linesep\<close>).
\<close>

text \<open>
  The lines the two functions print, one constructor for each \<^verbatim>\<open>print\<close> call: the
  confirmation of line 50 with the output path, the announcement of line 54, the success
  line of line 74 and the failure line of line 76 with the captured standard error.
\<close>

datatype message =
    Msg_converted string
  | Msg_importing
  | Msg_imported
  | Msg_import_failed string

text \<open>
  What the environment does with an external command: it cannot be started at all, or it
  runs and exits. The errors are the exceptions the two functions can end with.
\<close>

datatype proc_outcome =
    Not_started
  | Exited int string  \<comment> \<open>exit status and captured standard error\<close>

datatype py_error =
    FileNotFoundError
  | PermissionError
  | OSError
  | CalledProcessError int

record world =
  files :: "string \<rightharpoonup> string"
  writable :: "string \<Rightarrow> bool"
  stdout :: "message list"
  respond :: "string list \<Rightarrow> proc_outcome"
  invoked :: "string list list"

fun universal_newlines :: "string \<Rightarrow> string" where
  \<comment> \<open>reading in text mode turns CR LF and a lone CR into LF\<close>
  "universal_newlines [] = []"
| "universal_newlines [c] = [if c = CHR 0x0D then newline else c]"
| "universal_newlines (c # d # ds) =
     (if c = CHR 0x0D \<and> d = newline then newline # universal_newlines ds
      else if c = CHR 0x0D then newline # universal_newlines (d # ds)
      else c # universal_newlines (d # ds))"

definition print :: "message \<Rightarrow> world \<Rightarrow> world" where
  "print m w = w\<lparr>stdout := stdout w @ [m]\<rparr>"

definition convert_sqlite_to_sqlserver ::
  "string \<Rightarrow> string \<Rightarrow> world \<Rightarrow> (py_error + unit) \<times> world" where
  "convert_sqlite_to_sqlserver input_file output_file w =
     (case files w input_file of
        None \<Rightarrow> (Inl FileNotFoundError, w)
      | Some raw \<Rightarrow>
          (let content = universal_newlines raw;
               text = convert_text content
           in if \<not> writable w output_file then (Inl PermissionError, w)
              else (Inr (),
                    print (Msg_converted output_file)
                      (w\<lparr>files := (files w)(output_file \<mapsto> text)\<rparr>))))"

definition subprocess_run ::
  "string list \<Rightarrow> bool \<Rightarrow> world \<Rightarrow> (py_error + int \<times> string) \<times> world" where
  \<comment> \<open>\<^verbatim>\<open>subprocess.run(cmd, check=...)\<close>: the command is run once; with \<^verbatim>\<open>check\<close> a
      non-zero exit status raises\<close>
  "subprocess_run cmd check w =
     (let w' = w\<lparr>invoked := invoked w @ [cmd]\<rparr> in
      case respond w cmd of
        Not_started \<Rightarrow> (Inl OSError, w')
      | Exited rc err \<Rightarrow>
          if check \<and> rc \<noteq> 0 then (Inl (CalledProcessError rc), w')
          else (Inr (rc, err), w'))"

definition copy_cmd :: "string \<Rightarrow> string list" where
  "copy_cmd sql_file = [''docker'', ''cp'', sql_file, ''eidos-sqlserver:/tmp/'' @ sql_file]"

definition client_cmd :: "string \<Rightarrow> string list" where
  "client_cmd sql_file =
     [''docker'', ''exec'', ''-i'', ''eidos-sqlserver'',
      ''/opt/mssql-tools18/bin/sqlcmd'',
      ''-S'', ''localhost'',
      ''-U'', ''sa'',
      ''-P'', ''YourStrong!Passw0rd'',
      ''-d'', ''EidosDb'',
      ''-C'',
      ''-i'', ''/tmp/'' @ sql_file]"

definition import_to_sqlserver :: "string \<Rightarrow> world \<Rightarrow> (py_error + bool) \<times> world" where
  "import_to_sqlserver sql_file w =
     (let w1 = print Msg_importing w in
      case subprocess_run (copy_cmd sql_file) True w1 of
        (Inl e, w2) \<Rightarrow> (Inl e, w2)
      | (Inr _, w2) \<Rightarrow>
          (case subprocess_run (client_cmd sql_file) False w2 of
             (Inl e, w3) \<Rightarrow> (Inl e, w3)
           | (Inr (returncode, stderr), w3) \<Rightarrow>
               if returncode = 0 then (Inr True, print Msg_imported w3)
               else (Inr False, print (Msg_import_failed stderr) w3)))"


section \<open>Notions used in the statements\<close>

definition blank :: "string \<Rightarrow> bool" where
  \<comment> \<open>a line with nothing but white space, the empty line included\<close>
  "blank l = list_all isspace l"

definition lines_of_file :: "string \<Rightarrow> string list" where
  \<comment> \<open>the lines of a text file: none when the file is empty, otherwise the pieces
      between its newlines\<close>
  "lines_of_file s = (if s = [] then [] else split_nl s)"

fun go_follows :: "string list \<Rightarrow> bool" where
  \<comment> \<open>each line that ends with a semicolon has a next line, and that line is GO\<close>
  "go_follows [] = True"
| "go_follows (l # ls) =
     ((endswith l '';'' \<longrightarrow> ls \<noteq> [] \<and> hd ls = ''GO'') \<and> go_follows ls)"

definition scenario :: string where
  \<comment> \<open>the input of the end-to-end scenario\<close>
  "scenario =
     ''PRAGMA foo;'' @ [newline] @
     ''BEGIN TRANSACTION;'' @ [newline] @
     ''CREATE TABLE T (a int);'' @ [newline] @
     ''INSERT INTO T VALUES('' @ [quote] @ ''0'' @ [quote] @ '');'' @ [newline] @
     ''COMMIT;''"

definition world_with :: "string \<Rightarrow> world" where
  \<comment> \<open>a state whose only file is the driver's input file\<close>
  "world_with raw =
     \<lparr>files = [''sqlitedata.sql'' \<mapsto> raw], writable = (\<lambda>p. True), stdout = [],
      respond = (\<lambda>cmd. Not_started), invoked = []\<rparr>"

definition scenario_world :: world where
  "scenario_world = world_with scenario"

definition literal_rules :: "string \<Rightarrow> string" where
  \<comment> \<open>lines 31 to 35: rules 9 and 10 in the order of the source\<close>
  "literal_rules t = rule10 (rule9_one (rule9_zero t))"

definition standalone :: "string \<Rightarrow> string \<Rightarrow> bool" where
  \<comment> \<open>a literal between \<open>pre\<close> and \<open>post\<close> is a token of its own: the character before
      it and the character behind it, where there is one, is neither a quote nor one of the
      digits 0 and 1\<close>
  "standalone pre post =
     ((pre = [] \<or> last pre \<notin> {quote, CHR ''0'', CHR ''1''}) \<and>
      (post = [] \<or> hd post \<notin> {quote, CHR ''0'', CHR ''1''}))"

fun stmt_occurs :: "string \<Rightarrow> bool \<Rightarrow> string \<Rightarrow> bool" where
  \<comment> \<open>the pattern \<^verbatim>\<open>KW.*?;\<close> matches at some position of the text\<close>
  "stmt_occurs kw dotall [] = False"
| "stmt_occurs kw dotall (c # cs) =
     (match_stmt kw dotall (c # cs) \<noteq> None \<or> stmt_occurs kw dotall cs)"

definition pattern_free :: "string \<Rightarrow> bool" where
  \<comment> \<open>none of the patterns of rules 1 to 7 matches anywhere in the text\<close>
  "pattern_free t =
     (\<not> stmt_occurs ''PRAGMA'' False t \<and>
      \<not> occurs ''BEGIN TRANSACTION;'' t \<and>
      \<not> occurs ''COMMIT;'' t \<and>
      \<not> occurs ''CREATE TABLE IF NOT EXISTS'' t \<and>
      \<not> stmt_occurs ''CREATE TABLE'' True t \<and>
      \<not> stmt_occurs ''CREATE INDEX'' False t \<and>
      \<not> stmt_occurs ''CREATE UNIQUE INDEX'' False t)"

definition keyword_free :: "string \<Rightarrow> bool" where
  \<comment> \<open>not even the keyword part of a pattern of rules 1 to 7 occurs in the text\<close>
  "keyword_free t =
     (\<not> occurs ''PRAGMA'' t \<and>
      \<not> occurs ''BEGIN TRANSACTION;'' t \<and>
      \<not> occurs ''COMMIT;'' t \<and>
      \<not> occurs ''CREATE TABLE'' t \<and>
      \<not> occurs ''CREATE INDEX'' t \<and>
      \<not> occurs ''CREATE UNIQUE INDEX'' t)"

text \<open>
  Rule 5 as claim C2 words it, for comparison with \<^term>\<open>rule5\<close>: the deletion that starts
  at \<^verbatim>\<open>CREATE TABLE\<close> reaches the last semicolon of the document.
\<close>

fun greedy_to_semicolon :: "string \<Rightarrow> string option" where
  \<comment> \<open>the text behind the last semicolon\<close>
  "greedy_to_semicolon [] = None"
| "greedy_to_semicolon (c # cs) =
     (case greedy_to_semicolon cs of
        Some rest \<Rightarrow> Some rest
      | None \<Rightarrow> if c = CHR '';'' then Some cs else None)"

fun rule5_to_last :: "string \<Rightarrow> string" where
  "rule5_to_last [] = []"
| "rule5_to_last (c # cs) =
     (if startswith (c # cs) ''CREATE TABLE''
      then (case greedy_to_semicolon (drop 11 cs) of
              Some rest \<Rightarrow> rest
            | None \<Rightarrow> c # rule5_to_last cs)
      else c # rule5_to_last cs)"

text \<open>The converter with line 18 (rule 4) taken out, for claim C3.\<close>

definition convert_text_without_rule4 :: "string \<Rightarrow> string" where
  "convert_text_without_rule4 content =
     join_nl (output_lines (split_nl (rule10 (rule9_one (rule9_zero (rule8
       (rule7 (rule6 (rule5 (rule3 (rule2 (rule1 content))))))))))))"

definition greedy_doc :: string where
  \<comment> \<open>a CREATE TABLE whose body has a semicolon inside a string literal, then an INSERT\<close>
  "greedy_doc =
     ''CREATE TABLE T (a text default '' @ [quote] @ '';'' @ [quote] @ '');'' @ [newline] @
     ''INSERT INTO T VALUES(1);''"

definition guarded_doc :: string where
  "guarded_doc =
     ''CREATE TABLE IF NOT EXISTS T (a int);'' @ [newline] @ ''INSERT INTO T VALUES(1);''"

definition guard_line :: string where
  \<comment> \<open>the first line of the replacement text of rule 4\<close>
  "guard_line =
     ''IF NOT EXISTS (SELECT * FROM sys.objects WHERE object_id = OBJECT_ID(N''
     @ [quote] @ ''[dbo].[{table}]'' @ [quote] @ '') AND type in (N''
     @ [quote] @ ''U'' @ [quote] @ ''))''"

definition nested_index_doc :: string where
  \<comment> \<open>a CREATE INDEX statement written inside the keyword of a CREATE TABLE statement\<close>
  "nested_index_doc =
     ''CREATE TCREATE INDEX x;ABLE foo ('' @ [newline] @ '' a int'' @ [newline] @ '');''"

definition bool_doc :: string where
  "bool_doc =
     ''INSERT INTO T VALUES('' @ [quote] @ ''0'' @ [quote] @ '','' @ [quote] @ ''1'' @ [quote]
     @ '');''"

definition null_doc :: string where
  "null_doc = ''INSERT INTO T VALUES('' @ [quote, quote] @ '');''"

definition empty_dump :: string where
  \<comment> \<open>the dump of a database without tables\<close>
  "empty_dump =
     ''PRAGMA foreign_keys=OFF;'' @ [newline] @
     ''BEGIN TRANSACTION;'' @ [newline] @
     ''COMMIT;''"

definition import_world :: "int \<Rightarrow> int \<Rightarrow> world" where
  \<comment> \<open>a state in which the copy exits with \<open>cp\<close> and the database client with \<open>rc\<close>\<close>
  "import_world cp rc =
     \<lparr>files = Map.empty, writable = (\<lambda>p. True), stdout = [],
      respond = (\<lambda>cmd. if cmd = copy_cmd ''sqlserver_import.sql'' then Exited cp []
                        else if cmd = client_cmd ''sqlserver_import.sql''
                        then Exited rc ''Login failed'' else Not_started),
      invoked = []\<rparr>"


section \<open>Evaluation and basic facts\<close>

lemmas rule_defs =
  rule1_def rule2_def rule3_def rule4_def rule5_def rule6_def rule7_def rule8_def
  rule9_zero_def rule9_one_def rule10_def

lemmas pass_defs =
  convert_text_def converted_lines_def substitute_def before_rule10_def before_rule9_def
  deletion_rules_def

lemmas eval_defs =
  pass_defs rule_defs match_stmt_def strip_def isspace_def is_word_def endswith_def
  if_not_exists_guard_def

lemma scenario_lines:
  "converted_lines scenario = [''INSERT INTO [T] VALUES(0);'', ''GO'']"
  unfolding scenario_def by (simp add: eval_defs)

lemma startswith_take: "startswith s p \<longleftrightarrow> take (length p) s = p"
  by (induction s p rule: startswith.induct) auto

lemma last_dropWhile_keep:
  "dropWhile P xs \<noteq> [] \<Longrightarrow> last (dropWhile P xs) = last xs"
  by (induction xs) (auto split: if_splits)

lemma strip_no_space_ends:
  assumes "strip s \<noteq> []"
  shows "\<not> isspace (hd (strip s))" and "\<not> isspace (last (strip s))"
proof -
  let ?d = "dropWhile isspace s"
  let ?e = "dropWhile isspace (rev ?d)"
  from assms have e: "?e \<noteq> []" by (simp add: strip_def)
  have d: "?d \<noteq> []"
  proof
    assume a: "?d = []"
    have "?e = []" unfolding a by simp
    with e show False by blast
  qed
  have "last (strip s) = hd ?e" using e by (simp add: strip_def last_rev)
  then show "\<not> isspace (last (strip s))" using e hd_dropWhile by metis
  have "hd (strip s) = last ?e" using e by (simp add: strip_def hd_rev)
  also have "\<dots> = last (rev ?d)" using e by (rule last_dropWhile_keep)
  also have "\<dots> = hd ?d" using d by (simp add: last_rev)
  finally show "\<not> isspace (hd (strip s))" using d hd_dropWhile by metis
qed

lemma set_strip: "set (strip s) \<subseteq> set s"
  by (auto simp: strip_def dest!: set_dropWhileD)

lemma split_nl_nonempty: "split_nl s \<noteq> []"
  by (induction s) (auto split: list.splits)

lemma split_nl_no_newline: "l \<in> set (split_nl s) \<Longrightarrow> newline \<notin> set l"
  by (induction s arbitrary: l) (auto split: list.splits if_splits)

lemma split_nl_single: "newline \<notin> set l \<Longrightarrow> split_nl l = [l]"
  by (induction l) auto

lemma split_nl_append: "newline \<notin> set l \<Longrightarrow> split_nl (l @ newline # r) = l # split_nl r"
  by (induction l) auto

lemma split_join_nl:
  "ls \<noteq> [] \<Longrightarrow> \<forall>l \<in> set ls. newline \<notin> set l \<Longrightarrow> split_nl (join_nl ls) = ls"
  by (induction ls rule: join_nl.induct) (auto simp: split_nl_single split_nl_append)

lemma join_nl_empty: "\<forall>l \<in> set ls. l \<noteq> [] \<Longrightarrow> join_nl ls = [] \<longleftrightarrow> ls = []"
  by (induction ls rule: join_nl.induct) auto

lemma output_lines_elem:
  "l \<in> set (output_lines ls) \<Longrightarrow>
     l = ''GO'' \<or> (\<exists>x \<in> set ls. l = strip x \<and> strip x \<noteq> [] \<and> \<not> startswith (strip x) ''--'')"
  by (induction ls) (auto simp: Let_def split: if_splits)

lemma GO_facts:
  "\<not> isspace (CHR ''G'')" "\<not> isspace (CHR ''O'')" "\<not> endswith ''GO'' '';''"
  by (simp_all add: isspace_def endswith_def)

lemma converted_line_facts:
  assumes "l \<in> set (converted_lines content)"
  shows "l \<noteq> []" and "\<not> isspace (hd l)" and "\<not> isspace (last l)"
    and "\<not> startswith l ''--''" and "newline \<notin> set l"
proof -
  from assms consider "l = ''GO''"
    | x where "x \<in> set (split_nl (substitute content))" "l = strip x" "strip x \<noteq> []"
        "\<not> startswith (strip x) ''--''"
    unfolding converted_lines_def using output_lines_elem by blast
  then have "l \<noteq> [] \<and> \<not> isspace (hd l) \<and> \<not> isspace (last l) \<and> \<not> startswith l ''--''
      \<and> newline \<notin> set l"
  proof cases
    case 1
    then show ?thesis by (simp add: GO_facts)
  next
    case 2
    from 2(1) have "newline \<notin> set x" by (rule split_nl_no_newline)
    with set_strip [of x] have "newline \<notin> set (strip x)" by blast
    with 2 strip_no_space_ends [of x] show ?thesis by simp
  qed
  then show "l \<noteq> []" and "\<not> isspace (hd l)" and "\<not> isspace (last l)"
    and "\<not> startswith l ''--''" and "newline \<notin> set l" by simp_all
qed

text \<open>The lines of the file written are the entries of the list the loop builds.\<close>

lemma lines_of_converted: "lines_of_file (convert_text content) = converted_lines content"
proof (cases "converted_lines content = []")
  case True
  then show ?thesis by (simp add: lines_of_file_def convert_text_def)
next
  case False
  have ne: "\<forall>l \<in> set (converted_lines content). l \<noteq> []"
    using converted_line_facts(1) by blast
  have nn: "\<forall>l \<in> set (converted_lines content). newline \<notin> set l"
    using converted_line_facts(5) by blast
  from False ne have "convert_text content \<noteq> []"
    by (simp add: convert_text_def join_nl_empty)
  with False nn show ?thesis
    by (simp add: lines_of_file_def convert_text_def split_join_nl)
qed

lemma go_follows_output_lines: "go_follows (output_lines ls)"
  by (induction ls) (auto simp: Let_def GO_facts)

lemma go_follows_nth:
  "go_follows ls \<Longrightarrow> i < length ls \<Longrightarrow> endswith (ls ! i) '';'' \<Longrightarrow>
     Suc i < length ls \<and> ls ! Suc i = ''GO''"
proof (induction ls arbitrary: i)
  case Nil
  then show ?case by simp
next
  case (Cons l ls)
  show ?case
  proof (cases i)
    case 0
    with Cons.prems show ?thesis by (cases ls) auto
  next
    case (Suc j)
    with Cons show ?thesis by auto
  qed
qed


lemma output_lines_empty:
  "output_lines ls = [] \<longleftrightarrow> (\<forall>l \<in> set ls. strip l = [] \<or> startswith (strip l) ''--'')"
  by (induction ls) (auto simp: Let_def)

lemma convert_text_empty:
  "convert_text content = [] \<longleftrightarrow>
     (\<forall>l \<in> set (split_nl (substitute content)). strip l = [] \<or> startswith (strip l) ''--'')"
proof -
  have "\<forall>l \<in> set (converted_lines content). l \<noteq> []"
    using converted_line_facts(1) by blast
  then have "convert_text content = [] \<longleftrightarrow> converted_lines content = []"
    by (simp add: convert_text_def join_nl_empty)
  then show ?thesis by (simp add: converted_lines_def output_lines_empty)
qed

lemma scenario_text:
  "universal_newlines scenario = scenario"
  "convert_text scenario = ''INSERT INTO [T] VALUES(0);'' @ [newline] @ ''GO''"
  by (simp add: scenario_def, simp add: convert_text_def scenario_lines)


subsection \<open>Where a pattern does not match\<close>

lemma re_sub_stmt_match:
  "match_stmt kw d s = Some rest \<Longrightarrow> re_sub_stmt kw d s = re_sub_stmt kw d rest"
  by (cases s) (auto simp: match_stmt_def split: if_splits)

lemma re_sub_stmt_id: "\<not> stmt_occurs kw d s \<Longrightarrow> re_sub_stmt kw d s = s"
  by (induction s) auto

lemma replace_str_id: "\<not> occurs old s \<Longrightarrow> replace_str old new s = s"
  by (induction s) auto

lemma startswith_append_long:
  "length p \<le> length a \<Longrightarrow> startswith (a @ b) p = startswith a p"
  by (simp add: startswith_take)

lemma lazy_to_first:
  "CHR '';'' \<notin> set body \<Longrightarrow> lazy_to_semicolon True (body @ CHR '';'' # rest) = Some rest"
  by (induction body) auto

lemma re_sub_stmt_prefix:
  assumes "\<forall>i < length pre. \<not> startswith (drop i (pre @ kw)) kw"
  shows "re_sub_stmt kw d (pre @ kw @ r) = pre @ re_sub_stmt kw d (kw @ r)"
  using assms
proof (induction pre)
  case Nil
  then show ?case by simp
next
  case (Cons c p)
  from Cons.prems have "\<not> startswith (drop 0 ((c # p) @ kw)) kw" by blast
  moreover have "startswith (((c # p) @ kw) @ r) kw = startswith ((c # p) @ kw) kw"
    by (rule startswith_append_long) simp
  ultimately have m: "match_stmt kw d (c # p @ kw @ r) = None"
    by (simp add: match_stmt_def)
  have "\<forall>i < length p. \<not> startswith (drop i (p @ kw)) kw"
  proof (intro allI impI)
    fix i assume "i < length p"
    then have "Suc i < length (c # p)" by simp
    with Cons.prems have "\<not> startswith (drop (Suc i) ((c # p) @ kw)) kw" by blast
    then show "\<not> startswith (drop i (p @ kw)) kw" by simp
  qed
  with Cons.IH have "re_sub_stmt kw d (p @ kw @ r) = p @ re_sub_stmt kw d (kw @ r)" .
  with m show ?case by simp
qed

subsection \<open>Keywords, patterns and lines\<close>

lemma startswith_append_pat: "startswith s (p @ q) \<Longrightarrow> startswith s p"
  by (induction s p rule: startswith.induct) auto

lemma occurs_append_pat: "occurs (p @ q) s \<Longrightarrow> occurs p s"
  by (induction s) (auto dest: startswith_append_pat)

lemma stmt_occurs_occurs: "stmt_occurs kw d s \<Longrightarrow> occurs kw s"
  by (induction s) (auto simp: match_stmt_def split: if_splits)

lemma keyword_free_pattern_free: "keyword_free t \<Longrightarrow> pattern_free t"
  unfolding keyword_free_def pattern_free_def
  using stmt_occurs_occurs occurs_append_pat [of "''CREATE TABLE''" "'' IF NOT EXISTS''" t]
  by auto

lemma startswith_first_line:
  "startswith s kw \<Longrightarrow> newline \<notin> set kw \<Longrightarrow> startswith (hd (split_nl s)) kw"
  by (induction s kw rule: startswith.induct) (auto simp: split_nl_nonempty split: list.splits)

lemma occurs_in_line:
  "occurs kw s \<Longrightarrow> kw \<noteq> [] \<Longrightarrow> newline \<notin> set kw \<Longrightarrow> \<exists>l \<in> set (split_nl s). occurs kw l"
proof (induction s)
  case Nil
  then show ?case by simp
next
  case (Cons c cs)
  show ?case
  proof (cases "startswith (c # cs) kw")
    case True
    with Cons.prems have "startswith (hd (split_nl (c # cs))) kw"
      by (intro startswith_first_line)
    moreover have "hd (split_nl (c # cs)) \<in> set (split_nl (c # cs))"
      using split_nl_nonempty [of "c # cs"] by (intro hd_in_set)
    moreover have "occurs kw l" if "startswith l kw" for l
      using that Cons.prems(2) by (cases l; cases kw) auto
    ultimately show ?thesis by blast
  next
    case False
    with Cons.prems have "occurs kw cs" by simp
    with Cons obtain l where l: "l \<in> set (split_nl cs)" "occurs kw l" by blast
    show ?thesis
    proof (cases "c = newline")
      case True
      with l show ?thesis by auto
    next
      case n: False
      obtain m ms where ms: "split_nl cs = m # ms"
        using split_nl_nonempty [of cs] by (cases "split_nl cs") auto
      with n have s: "split_nl (c # cs) = (c # m) # ms" by simp
      from l ms consider "l = m" | "l \<in> set ms" by auto
      then show ?thesis
      proof cases
        case 1
        with l(2) have "occurs kw (c # m)" by simp
        with s show ?thesis by simp
      next
        case 2
        with l(2) s show ?thesis by auto
      qed
    qed
  qed
qed

lemma lines_keyword_free:
  assumes "\<forall>l \<in> set (lines_of_file t). keyword_free l"
  shows "keyword_free t"
proof (cases "t = []")
  case True
  then show ?thesis by (simp add: keyword_free_def)
next
  case False
  have "\<not> occurs kw t" if "kw \<noteq> []" "newline \<notin> set kw"
    "\<And>l. keyword_free l \<Longrightarrow> \<not> occurs kw l" for kw
  proof
    assume "occurs kw t"
    with that obtain l where "l \<in> set (split_nl t)" "occurs kw l"
      using occurs_in_line by blast
    with assms False that(3) show False by (auto simp: lines_of_file_def)
  qed
  then show ?thesis
    unfolding keyword_free_def by (auto simp: keyword_free_def)
qed

subsection \<open>Replacing next to a character the pattern does not contain\<close>

lemma startswith_no_char:
  "c \<notin> set old \<Longrightarrow> startswith (x @ c # y) old = startswith x old"
  by (induction x old rule: startswith.induct) auto

lemma startswith_length: "startswith s p \<Longrightarrow> length p \<le> length s"
  by (induction s p rule: startswith.induct) auto

lemma replace_str_split:
  assumes "c \<notin> set old"
  shows "replace_str old new (x @ c # y) = replace_str old new x @ c # replace_str old new y"
  using assms
proof (induction old new x rule: replace_str.induct)
  case (1 old new)
  then have "\<not> startswith (c # y) old \<or> old = []" by (cases old) auto
  then show ?case by auto
next
  case (2 old new a as)
  have sw: "startswith (a # as @ c # y) old = startswith (a # as) old"
    using startswith_no_char [OF "2.prems", of "a # as" y] by simp
  show ?case
  proof (cases "old \<noteq> [] \<and> startswith (a # as) old")
    case True
    then have "length old - 1 \<le> length as"
      using startswith_length [of "a # as" old] by simp
    with True "2.IH"(1) "2.prems" sw show ?thesis by simp
  next
    case False
    with "2.IH"(2) "2.prems" sw show ?thesis by auto
  qed
qed

lemma replace_str_snoc:
  "c \<notin> set old \<Longrightarrow> replace_str old new (x @ [c]) = replace_str old new x @ [c]"
  using replace_str_split [of c old new x "[]"] by simp

lemma replace_str_here:
  "old \<noteq> [] \<Longrightarrow> replace_str old new (old @ r) = new @ replace_str old new r"
  by (cases old) (auto simp: startswith_take)

lemma replace_split_before:
  assumes "pre = [] \<or> last pre \<notin> set old" and "old \<noteq> []"
  shows "replace_str old new (pre @ old @ post)
           = replace_str old new pre @ new @ replace_str old new post"
proof (cases "pre = []")
  case True
  with assms(2) show ?thesis by (simp add: replace_str_here)
next
  case False
  then obtain p c where pre: "pre = p @ [c]" by (metis rev_exhaust)
  with assms(1) have c: "c \<notin> set old" by simp
  have "replace_str old new (pre @ old @ post) = replace_str old new (p @ c # (old @ post))"
    by (simp add: pre)
  also have "\<dots> = replace_str old new p @ c # replace_str old new (old @ post)"
    using c by (rule replace_str_split)
  also have "\<dots> = replace_str old new pre @ new @ replace_str old new post"
    using c assms(2) by (simp add: pre replace_str_snoc replace_str_here)
  finally show ?thesis .
qed

lemma replace_keeps_first:
  "startswith (replace_str [quote, quote] ''NULL'' s) [quote] \<Longrightarrow> startswith s [quote]"
  by (cases s) (auto split: if_splits)

lemma rule10_no_pairs: "\<not> occurs [quote, quote] (replace_str [quote, quote] ''NULL'' s)"
proof (induction "length s" arbitrary: s rule: less_induct)
  case less
  show ?case
  proof (cases s)
    case Nil
    then show ?thesis by simp
  next
    case (Cons c cs)
    show ?thesis
    proof (cases "startswith (c # cs) [quote, quote]")
      case True
      then obtain cs' where cs: "cs = quote # cs'" and c: "c = quote"
        by (cases cs) auto
      have "\<not> occurs [quote, quote] (replace_str [quote, quote] ''NULL'' cs')"
        using less [of cs'] Cons cs by simp
      then show ?thesis by (simp add: Cons cs c)
    next
      case False
      have ih: "\<not> occurs [quote, quote] (replace_str [quote, quote] ''NULL'' cs)"
        using less [of cs] Cons by simp
      have "\<not> startswith (c # replace_str [quote, quote] ''NULL'' cs) [quote, quote]"
      proof
        assume a: "startswith (c # replace_str [quote, quote] ''NULL'' cs) [quote, quote]"
        then have "c = quote" and "startswith (replace_str [quote, quote] ''NULL'' cs) [quote]"
          by simp_all
        then have "startswith (c # cs) [quote, quote]"
          using replace_keeps_first [of cs] by simp
        with False show False ..
      qed
      moreover have "replace_str [quote, quote] ''NULL'' (c # cs)
          = c # replace_str [quote, quote] ''NULL'' cs"
        using False by simp
      ultimately show ?thesis
        unfolding Cons using ih by (simp del: replace_str.simps)
    qed
  qed
qed

subsection \<open>Rules 9 and 10 around a literal\<close>

lemma literal_rules_split:
  assumes "c \<notin> {quote, CHR ''0'', CHR ''1''}"
  shows "literal_rules (x @ c # y) = literal_rules x @ c # literal_rules y"
  using assms
  by (simp add: literal_rules_def rule_defs replace_str_split)

lemma literal_rules_zero:
  assumes "post = [] \<or> hd post \<notin> {quote, CHR ''0'', CHR ''1''}"
  shows "literal_rules ([quote, CHR ''0'', quote] @ post) = ''0'' @ literal_rules post"
proof -
  have "rule9_zero ([quote, CHR ''0'', quote] @ post) = CHR ''0'' # rule9_zero post"
    by (simp add: rule9_zero_def)
  then have "literal_rules ([quote, CHR ''0'', quote] @ post)
      = rule10 (rule9_one ([] @ CHR ''0'' # rule9_zero post))"
    by (simp add: literal_rules_def)
  also have "\<dots> = rule10 ([] @ CHR ''0'' # rule9_one (rule9_zero post))"
    unfolding rule9_one_def by (subst replace_str_split) simp_all
  also have "\<dots> = CHR ''0'' # rule10 (rule9_one (rule9_zero post))"
    unfolding rule10_def by (subst replace_str_split) simp_all
  finally show ?thesis by (simp add: literal_rules_def)
qed

lemma literal_rules_one:
  assumes "post = [] \<or> hd post \<notin> {quote, CHR ''0'', CHR ''1''}"
  shows "literal_rules ([quote, CHR ''1'', quote] @ post) = ''1'' @ literal_rules post"
proof -
  have "rule9_zero ([quote, CHR ''1'', quote] @ post) = [quote, CHR ''1'', quote] @ rule9_zero post"
    using assms by (cases post) (auto simp: rule9_zero_def)
  then have "rule9_one (rule9_zero ([quote, CHR ''1'', quote] @ post))
      = [] @ CHR ''1'' # rule9_one (rule9_zero post)"
    by (simp add: rule9_one_def)
  then have "literal_rules ([quote, CHR ''1'', quote] @ post)
      = rule10 ([] @ CHR ''1'' # rule9_one (rule9_zero post))"
    by (simp add: literal_rules_def)
  also have "\<dots> = CHR ''1'' # rule10 (rule9_one (rule9_zero post))"
    unfolding rule10_def by (subst replace_str_split) simp_all
  finally show ?thesis by (simp add: literal_rules_def)
qed

lemma literal_rules_at:
  assumes "standalone pre post"
    and "\<And>post. post = [] \<or> hd post \<notin> {quote, CHR ''0'', CHR ''1''} \<Longrightarrow>
           literal_rules (lit @ post) = num @ literal_rules post"
  shows "literal_rules (pre @ lit @ post) = literal_rules pre @ num @ literal_rules post"
proof (cases "pre = []")
  case True
  have "literal_rules [] = []" by (simp add: literal_rules_def rule_defs)
  with True assms show ?thesis by (simp add: standalone_def)
next
  case False
  then obtain p c where pre: "pre = p @ [c]" by (metis rev_exhaust)
  with assms(1) have c: "c \<notin> {quote, CHR ''0'', CHR ''1''}" by (simp add: standalone_def)
  have e: "literal_rules [] = []" by (simp add: literal_rules_def rule_defs)
  have "literal_rules (pre @ lit @ post) = literal_rules (p @ c # (lit @ post))"
    by (simp add: pre)
  also have "\<dots> = literal_rules p @ c # literal_rules (lit @ post)"
    using c by (rule literal_rules_split)
  also have "\<dots> = literal_rules p @ c # num @ literal_rules post"
    using assms by (simp add: standalone_def)
  finally have "literal_rules (pre @ lit @ post)
      = (literal_rules p @ [c]) @ num @ literal_rules post" by simp
  moreover have "literal_rules p @ [c] = literal_rules pre"
    using literal_rules_split [OF c, of p "[]"] e by (simp add: pre)
  ultimately show ?thesis by simp
qed



section \<open>The end-to-end scenario\<close>

text \<open>
  C1. When the input file holds the five statements of the scenario (a PRAGMA, BEGIN
  TRANSACTION, a CREATE TABLE, one INSERT with the quoted literal 0, COMMIT, one per
  line), the converter succeeds and the output file holds exactly two lines: the
  statement \<^verbatim>\<open>INSERT INTO [T] VALUES(0);\<close> and, right behind it, \<^verbatim>\<open>GO\<close>.
\<close>

theorem scenario_output:
  assumes "files w input_file = Some scenario" and "writable w output_file"
  shows "\<exists>w'. convert_sqlite_to_sqlserver input_file output_file w = (Inr (), w') \<and>
           files w' output_file = Some (''INSERT INTO [T] VALUES(0);'' @ [newline] @ ''GO'') \<and>
           lines_of_file (''INSERT INTO [T] VALUES(0);'' @ [newline] @ ''GO'')
             = [''INSERT INTO [T] VALUES(0);'', ''GO'']"
proof -
  have nl: "universal_newlines scenario = scenario"
    unfolding scenario_def by simp
  have "convert_text scenario = ''INSERT INTO [T] VALUES(0);'' @ [newline] @ ''GO''"
    by (simp add: convert_text_def scenario_lines)
  with assms nl show ?thesis
    by (simp add: convert_sqlite_to_sqlserver_def print_def lines_of_file_def)
qed

theorem scenario_output_witness:
  "fst (convert_sqlite_to_sqlserver ''sqlitedata.sql'' ''sqlserver_import.sql'' scenario_world)
     = Inr () \<and>
   files (snd (convert_sqlite_to_sqlserver ''sqlitedata.sql'' ''sqlserver_import.sql''
                 scenario_world)) ''sqlserver_import.sql''
     = Some (''INSERT INTO [T] VALUES(0);'' @ [newline] @ ''GO'')"
  using scenario_output [of scenario_world "''sqlitedata.sql''" "''sqlserver_import.sql''"]
  by (auto simp: scenario_world_def world_with_def)


section \<open>Rule 5: how far a CREATE TABLE deletion reaches\<close>

text \<open>
  C2, as the code has it. The claim that the deletion reaches the last semicolon of the
  document fails. For a CREATE TABLE whose body has a semicolon inside a string literal,
  followed by an INSERT statement, line 21 deletes up to the semicolon inside the literal
  and keeps everything behind it, the INSERT included; a deletion to the last semicolon
  would leave nothing.
\<close>

theorem greedy_deletion_counterexample:
  "rule5 greedy_doc = [quote] @ '');'' @ [newline] @ ''INSERT INTO T VALUES(1);'' \<and>
   rule5_to_last greedy_doc = [] \<and>
   rule5 greedy_doc \<noteq> rule5_to_last greedy_doc"
  unfolding greedy_doc_def by (simp add: rule5_def match_stmt_def)

text \<open>
  C2, amended. Each CREATE TABLE deletion removes the text from an occurrence of
  \<^verbatim>\<open>CREATE TABLE\<close> up to and including the first semicolon behind it, wherever that
  semicolon stands (on a later line, inside a string literal): when no occurrence of
  \<^verbatim>\<open>CREATE TABLE\<close> starts inside \<open>pre\<close> and \<open>body\<close> has no semicolon, rule 5 keeps
  \<open>pre\<close>, deletes the keyword, \<open>body\<close> and the semicolon, and goes on with the rest of
  the document, whatever semicolons the rest holds.
\<close>

theorem create_table_to_first_semicolon:
  assumes "\<forall>i < length pre. \<not> startswith (drop i (pre @ ''CREATE TABLE'')) ''CREATE TABLE''"
    and "CHR '';'' \<notin> set body"
  shows "rule5 (pre @ ''CREATE TABLE'' @ body @ '';'' @ rest) = pre @ rule5 rest"
proof -
  have "match_stmt ''CREATE TABLE'' True (''CREATE TABLE'' @ body @ '';'' @ rest) = Some rest"
    using assms(2) lazy_to_first [of body rest] by (simp add: match_stmt_def)
  then have "re_sub_stmt ''CREATE TABLE'' True (''CREATE TABLE'' @ body @ '';'' @ rest)
      = re_sub_stmt ''CREATE TABLE'' True rest"
    by (rule re_sub_stmt_match)
  with re_sub_stmt_prefix [OF assms(1), of True "body @ '';'' @ rest"]
  show ?thesis by (simp add: rule5_def)
qed

theorem create_table_to_first_semicolon_witness:
  "rule5 (''--x'' @ [newline] @ greedy_doc)
     = ''--x'' @ [newline] @ [quote] @ '');'' @ [newline] @ ''INSERT INTO T VALUES(1);''"
proof -
  have h1: "\<forall>i < length (''--x'' @ [newline]).
      \<not> startswith (drop i ((''--x'' @ [newline]) @ ''CREATE TABLE'')) ''CREATE TABLE''"
    by (simp add: All_less_Suc)
  have h2: "CHR '';'' \<notin> set ('' T (a text default '' @ [quote])"
    by simp
  have r: "rule5 ([quote] @ '');'' @ [newline] @ ''INSERT INTO T VALUES(1);'')
      = [quote] @ '');'' @ [newline] @ ''INSERT INTO T VALUES(1);''"
    by (simp add: rule5_def match_stmt_def)
  from create_table_to_first_semicolon [OF h1 h2,
      of "[quote] @ '');'' @ [newline] @ ''INSERT INTO T VALUES(1);''"] r
  show ?thesis by (simp add: greedy_doc_def)
qed


section \<open>Rule 4: the rewrite of CREATE TABLE IF NOT EXISTS\<close>

text \<open>
  C3. The claim says that rule 4 changes nothing in the output, since rule 5 removes every
  CREATE TABLE statement, with or without \<^verbatim>\<open>IF NOT EXISTS\<close>; the comment of line 20
  says the same (``Remove CREATE TABLE statements''), and a plain CREATE TABLE statement
  does leave nothing behind. The code departs from it. Rule 4 puts a guard line before
  \<^verbatim>\<open>CREATE TABLE\<close>, with the placeholder \<^verbatim>\<open>{table}\<close> never filled in, and rule 5
  deletes only from \<^verbatim>\<open>CREATE TABLE\<close> to the next semicolon, so the guard line stays.
  For a guarded CREATE TABLE statement followed by an INSERT statement the output with
  rule 4 has three lines, the dangling guard first; without rule 4 it has the two lines
  of the INSERT statement and its batch separator, and the two outputs differ.
\<close>

theorem rule4_leaves_guard_line:
  "lines_of_file (convert_text guarded_doc)
     = [guard_line, ''INSERT INTO [T] VALUES(1);'', ''GO''] \<and>
   lines_of_file (convert_text_without_rule4 guarded_doc)
     = [''INSERT INTO [T] VALUES(1);'', ''GO''] \<and>
   convert_text guarded_doc \<noteq> convert_text_without_rule4 guarded_doc"
proof -
  have a: "convert_text guarded_doc
      = guard_line @ [newline] @ ''INSERT INTO [T] VALUES(1);'' @ [newline] @ ''GO''"
    unfolding guarded_doc_def guard_line_def by (simp add: eval_defs)
  have b: "convert_text_without_rule4 guarded_doc
      = ''INSERT INTO [T] VALUES(1);'' @ [newline] @ ''GO''"
    unfolding guarded_doc_def convert_text_without_rule4_def
    by (simp add: rule_defs match_stmt_def strip_def isspace_def is_word_def endswith_def)
  show ?thesis
    unfolding a b by (simp add: lines_of_file_def guard_line_def)
qed


section \<open>Rules 9 and 10: literals\<close>

text \<open>
  C5. For every input document: where the text that reaches line 31 holds the quoted
  literal \<^verbatim>\<open>'0'\<close> as a token of its own, the substitutions put the bare numeral
  \<^verbatim>\<open>0\<close> in its place, between the results for the text before it and for the text
  behind it; likewise \<^verbatim>\<open>'1'\<close> becomes \<^verbatim>\<open>1\<close>.
\<close>

theorem boolean_literals:
  "(before_rule9 content = pre @ [quote, CHR ''0'', quote] @ post \<and> standalone pre post \<longrightarrow>
      substitute content = literal_rules pre @ ''0'' @ literal_rules post) \<and>
   (before_rule9 content = pre @ [quote, CHR ''1'', quote] @ post \<and> standalone pre post \<longrightarrow>
      substitute content = literal_rules pre @ ''1'' @ literal_rules post)"
proof -
  have s: "substitute content = literal_rules (before_rule9 content)"
    by (simp add: substitute_def before_rule10_def literal_rules_def)
  show ?thesis
    unfolding s
    using literal_rules_at [of pre post "[quote, CHR ''0'', quote]" "''0''"]
      literal_rules_at [of pre post "[quote, CHR ''1'', quote]" "''1''"]
      literal_rules_zero literal_rules_one
    by auto
qed

theorem boolean_literals_witness:
  "before_rule9 bool_doc
     = ''INSERT INTO [T] VALUES('' @ [quote, CHR ''0'', quote]
         @ ('','' @ [quote] @ ''1'' @ [quote] @ '');'') \<and>
   standalone ''INSERT INTO [T] VALUES('' ('','' @ [quote] @ ''1'' @ [quote] @ '');'') \<and>
   before_rule9 bool_doc
     = (''INSERT INTO [T] VALUES('' @ [quote] @ ''0'' @ [quote] @ '','')
         @ [quote, CHR ''1'', quote] @ '');'' \<and>
   standalone (''INSERT INTO [T] VALUES('' @ [quote] @ ''0'' @ [quote] @ '','') '');'' \<and>
   substitute bool_doc = ''INSERT INTO [T] VALUES(0,1);''"
proof -
  have b0: "before_rule9 bool_doc
     = ''INSERT INTO [T] VALUES('' @ [quote, CHR ''0'', quote]
         @ ('','' @ [quote] @ ''1'' @ [quote] @ '');'')"
    unfolding bool_doc_def
    by (simp add: before_rule9_def deletion_rules_def rule_defs match_stmt_def is_word_def)
  have s0: "standalone ''INSERT INTO [T] VALUES('' ('','' @ [quote] @ ''1'' @ [quote] @ '');'')"
    by (simp add: standalone_def)
  have b1: "before_rule9 bool_doc
     = (''INSERT INTO [T] VALUES('' @ [quote] @ ''0'' @ [quote] @ '','')
         @ [quote, CHR ''1'', quote] @ '');''"
    unfolding b0 by simp
  have s1: "standalone (''INSERT INTO [T] VALUES('' @ [quote] @ ''0'' @ [quote] @ '','') '');''"
    by (simp add: standalone_def)
  from boolean_literals [of bool_doc "''INSERT INTO [T] VALUES(''"
      "'','' @ [quote] @ ''1'' @ [quote] @ '');''"] b0 s0
  have "substitute bool_doc = literal_rules ''INSERT INTO [T] VALUES('' @ ''0''
      @ literal_rules ('','' @ [quote] @ ''1'' @ [quote] @ '');'')"
    by blast
  then have "substitute bool_doc = ''INSERT INTO [T] VALUES(0,1);''"
    by (simp add: literal_rules_def rule_defs)
  with b0 s0 b1 s1 show ?thesis by blast
qed

text \<open>
  C6. For every input document, line 35 turns the pairs of quotes into \<^verbatim>\<open>NULL\<close>
  whatever stands around them: in the text after the substitutions no two quotes stand
  side by side any more, and a pair that is not preceded by a further quote has the token
  \<^verbatim>\<open>NULL\<close> in its place, between the results for the text before it and for the text
  behind it. No condition on the meaning of the pair enters, so an empty string value is
  turned into \<^verbatim>\<open>NULL\<close> as well.
\<close>

theorem empty_quotes_become_null:
  "\<not> occurs [quote, quote] (substitute content) \<and>
   (\<forall>pre post. before_rule10 content = pre @ [quote, quote] @ post \<and>
        (pre = [] \<or> last pre \<noteq> quote) \<longrightarrow>
      substitute content = rule10 pre @ ''NULL'' @ rule10 post)"
proof -
  have "substitute content = rule10 pre @ ''NULL'' @ rule10 post"
    if "before_rule10 content = pre @ [quote, quote] @ post" and "pre = [] \<or> last pre \<noteq> quote"
    for pre post
  proof -
    from that(2) have "pre = [] \<or> last pre \<notin> set [quote, quote]" by simp
    then show ?thesis
      unfolding substitute_def that(1) rule10_def
      by (rule replace_split_before) simp
  qed
  then show ?thesis
    by (simp add: substitute_def rule10_def rule10_no_pairs)
qed

theorem empty_quotes_become_null_witness:
  "before_rule10 null_doc = ''INSERT INTO [T] VALUES('' @ [quote, quote] @ '');'' \<and>
   substitute null_doc = ''INSERT INTO [T] VALUES(NULL);''"
proof -
  have b: "before_rule10 null_doc = ''INSERT INTO [T] VALUES('' @ [quote, quote] @ '');''"
    unfolding null_doc_def
    by (simp add: before_rule10_def before_rule9_def deletion_rules_def rule_defs
        match_stmt_def is_word_def)
  have l: "''INSERT INTO [T] VALUES('' = [] \<or> last ''INSERT INTO [T] VALUES('' \<noteq> quote"
    by simp
  from empty_quotes_become_null [of null_doc] b l
  have "substitute null_doc = rule10 ''INSERT INTO [T] VALUES('' @ ''NULL'' @ rule10 '');''"
    by blast
  with b show ?thesis by (simp add: rule10_def)
qed


section \<open>A second pass over the converter's own output\<close>

text \<open>
  C7, as the code has it. The claim fails for a single line: rule 5 matches across lines,
  so on the second pass a line that holds no pattern, not even a keyword of one, is
  deleted when an earlier line of the output holds \<^verbatim>\<open>CREATE TABLE\<close> and a later one a
  semicolon. Such an output arises when a CREATE INDEX statement, deleted by rule 6 after
  rule 5 has run, stood inside the keyword of a CREATE TABLE statement.
\<close>

theorem second_pass_counterexample:
  "lines_of_file (convert_text nested_index_doc)
     = [''CREATE TABLE foo ('', ''a int'', '');'', ''GO''] \<and>
   keyword_free ''a int'' \<and> pattern_free ''a int'' \<and>
   lines_of_file (deletion_rules (convert_text nested_index_doc)) = [[], ''GO'']"
proof -
  have a: "convert_text nested_index_doc
      = ''CREATE TABLE foo ('' @ [newline] @ ''a int'' @ [newline] @ '');'' @ [newline] @ ''GO''"
    unfolding nested_index_doc_def by (simp add: eval_defs)
  have b: "deletion_rules (convert_text nested_index_doc) = [newline] @ ''GO''"
    unfolding a by (simp add: deletion_rules_def rule_defs match_stmt_def)
  have c: "keyword_free ''a int''" "pattern_free ''a int''"
    by (simp_all add: keyword_free_def pattern_free_def match_stmt_def)
  show ?thesis
    unfolding b unfolding a using c by (simp add: lines_of_file_def)
qed

text \<open>
  C7, amended. When no pattern of rules 1 to 7 matches anywhere in a text, taken as a
  whole and not line by line, these rules leave the text as it is; this is so in
  particular when no line of the text holds the keyword part of such a pattern. So a
  second run of the converter on an output of this kind deletes and alters nothing in
  rules 1 to 7.
\<close>

theorem deletion_rules_noop:
  "(pattern_free t \<longrightarrow> deletion_rules t = t) \<and>
   ((\<forall>l \<in> set (lines_of_file t). keyword_free l) \<longrightarrow> deletion_rules t = t)"
proof -
  have a: "deletion_rules t = t" if "pattern_free t"
    using that
    by (simp add: pattern_free_def deletion_rules_def rule_defs re_sub_stmt_id replace_str_id)
  have "deletion_rules t = t" if "\<forall>l \<in> set (lines_of_file t). keyword_free l"
    using that a lines_keyword_free keyword_free_pattern_free by blast
  with a show ?thesis by blast
qed

theorem deletion_rules_noop_witness:
  "pattern_free (convert_text scenario) \<and>
   lines_of_file (convert_text scenario) = [''INSERT INTO [T] VALUES(0);'', ''GO''] \<and>
   keyword_free ''INSERT INTO [T] VALUES(0);'' \<and> keyword_free ''GO'' \<and>
   deletion_rules (convert_text scenario) = ''INSERT INTO [T] VALUES(0);'' @ [newline] @ ''GO''"
proof -
  have h: "pattern_free (convert_text scenario)"
    by (simp add: scenario_text pattern_free_def match_stmt_def)
  have k: "\<forall>l \<in> set (lines_of_file (convert_text scenario)). keyword_free l"
    by (simp add: lines_of_converted scenario_lines keyword_free_def)
  have ls: "lines_of_file (convert_text scenario) = [''INSERT INTO [T] VALUES(0);'', ''GO'']"
    by (simp add: lines_of_converted scenario_lines)
  have kf: "keyword_free ''INSERT INTO [T] VALUES(0);''" "keyword_free ''GO''"
    by (simp_all add: keyword_free_def)
  from deletion_rules_noop [of "convert_text scenario"] h k
  have "deletion_rules (convert_text scenario) = convert_text scenario" by blast
  with h ls kf show ?thesis by (simp add: scenario_text)
qed


section \<open>The line pass: batch separators, comments, white space\<close>

text \<open>
  C4. For every input document, in the lines of the output: each line that ends with the
  statement terminator \<^verbatim>\<open>;\<close> has a next line, and that next line is the batch
  separator \<^verbatim>\<open>GO\<close>; and no line is blank (empty or white space only) or begins with
  the comment marker \<^verbatim>\<open>--\<close>.
\<close>

theorem batch_separator_follows:
  "(\<forall>i < length (lines_of_file (convert_text content)).
      endswith (lines_of_file (convert_text content) ! i) '';'' \<longrightarrow>
        Suc i < length (lines_of_file (convert_text content)) \<and>
        lines_of_file (convert_text content) ! Suc i = ''GO'') \<and>
   (\<forall>l \<in> set (lines_of_file (convert_text content)). \<not> blank l \<and> \<not> startswith l ''--'')"
proof -
  have gf: "go_follows (converted_lines content)"
    unfolding converted_lines_def by (rule go_follows_output_lines)
  have "\<not> blank l" if "l \<in> set (converted_lines content)" for l
  proof -
    from that have "l \<noteq> []" "\<not> isspace (hd l)" by (rule converted_line_facts)+
    then show ?thesis by (cases l) (auto simp: blank_def)
  qed
  with gf show ?thesis
    unfolding lines_of_converted
    using go_follows_nth converted_line_facts(4) by blast
qed

theorem batch_separator_follows_witness:
  "0 < length (lines_of_file (convert_text scenario)) \<and>
   endswith (lines_of_file (convert_text scenario) ! 0) '';'' \<and>
   lines_of_file (convert_text scenario) ! Suc 0 = ''GO'' \<and>
   ''GO'' \<in> set (lines_of_file (convert_text scenario)) \<and>
   \<not> blank ''GO'' \<and> \<not> startswith ''GO'' ''--''"
proof -
  have ls: "lines_of_file (convert_text scenario) = [''INSERT INTO [T] VALUES(0);'', ''GO'']"
    by (simp add: lines_of_converted scenario_lines)
  have h: "0 < length (lines_of_file (convert_text scenario))"
    "endswith (lines_of_file (convert_text scenario) ! 0) '';''"
    "''GO'' \<in> set (lines_of_file (convert_text scenario))"
    by (simp_all add: ls endswith_def)
  with batch_separator_follows [of scenario] show ?thesis by blast
qed

text \<open>
  C10. Every line the converter writes is stripped: for every input document, no line of
  the output file is empty, begins with a white space character or ends with one.
\<close>

theorem stripped_lines:
  "\<forall>l \<in> set (lines_of_file (convert_text content)).
      l \<noteq> [] \<and> \<not> isspace (hd l) \<and> \<not> isspace (last l)"
  unfolding lines_of_converted using converted_line_facts by blast

theorem stripped_lines_witness:
  "''INSERT INTO [T] VALUES(0);'' \<in> set (lines_of_file (convert_text scenario)) \<and>
   \<not> isspace (hd ''INSERT INTO [T] VALUES(0);'') \<and>
   \<not> isspace (last ''INSERT INTO [T] VALUES(0);'')"
proof -
  have "''INSERT INTO [T] VALUES(0);'' \<in> set (lines_of_file (convert_text scenario))"
    by (simp add: lines_of_converted scenario_lines)
  with stripped_lines [of scenario] show ?thesis by blast
qed



section \<open>The output file\<close>

text \<open>
  C8, as the code has it. The claim that the output is never empty fails: for the dump of
  a database without tables every line is deleted, and the file written is empty.
\<close>

theorem empty_output_counterexample:
  "fst (convert_sqlite_to_sqlserver ''sqlitedata.sql'' ''sqlserver_import.sql''
          (world_with empty_dump)) = Inr () \<and>
   files (snd (convert_sqlite_to_sqlserver ''sqlitedata.sql'' ''sqlserver_import.sql''
                 (world_with empty_dump))) ''sqlserver_import.sql'' = Some []"
proof -
  have nl: "universal_newlines empty_dump = empty_dump"
    unfolding empty_dump_def by simp
  have "convert_text empty_dump = []"
    unfolding empty_dump_def by (simp add: eval_defs)
  with nl show ?thesis
    by (simp add: convert_sqlite_to_sqlserver_def world_with_def print_def)
qed

text \<open>
  C8, amended. Whenever the converter completes without raising, the input file was
  there, the output file exists and holds the converted text; that text is non-empty
  exactly when some line of the document, after the substitutions, is neither blank nor
  a comment.
\<close>

theorem output_written:
  assumes "convert_sqlite_to_sqlserver input_file output_file w = (Inr (), w')"
  shows "\<exists>raw. files w input_file = Some raw \<and>
           files w' output_file = Some (convert_text (universal_newlines raw)) \<and>
           (convert_text (universal_newlines raw) \<noteq> [] \<longleftrightarrow>
              (\<exists>l \<in> set (split_nl (substitute (universal_newlines raw))).
                  strip l \<noteq> [] \<and> \<not> startswith (strip l) ''--''))"
proof (cases "files w input_file")
  case None
  with assms show ?thesis by (simp add: convert_sqlite_to_sqlserver_def)
next
  case (Some raw)
  with assms have "files w' output_file = Some (convert_text (universal_newlines raw))"
    by (auto simp: convert_sqlite_to_sqlserver_def print_def Let_def split: if_splits)
  with Some show ?thesis by (auto simp: convert_text_empty)
qed

theorem output_written_witness:
  "convert_sqlite_to_sqlserver ''sqlitedata.sql'' ''sqlserver_import.sql'' scenario_world
     = (Inr (), print (Msg_converted ''sqlserver_import.sql'')
          (scenario_world\<lparr>files := (files scenario_world)(''sqlserver_import.sql'' \<mapsto>
             ''INSERT INTO [T] VALUES(0);'' @ [newline] @ ''GO'')\<rparr>)) \<and>
   (\<exists>raw. files scenario_world ''sqlitedata.sql'' = Some raw \<and>
      convert_text (universal_newlines raw) \<noteq> [])"
proof -
  have run: "convert_sqlite_to_sqlserver ''sqlitedata.sql'' ''sqlserver_import.sql'' scenario_world
     = (Inr (), print (Msg_converted ''sqlserver_import.sql'')
          (scenario_world\<lparr>files := (files scenario_world)(''sqlserver_import.sql'' \<mapsto>
             ''INSERT INTO [T] VALUES(0);'' @ [newline] @ ''GO'')\<rparr>))"
    by (simp add: convert_sqlite_to_sqlserver_def scenario_world_def world_with_def
        scenario_text)
  from output_written [OF run] run show ?thesis
    by (auto simp: print_def scenario_world_def world_with_def scenario_text)
qed


section \<open>The import runner\<close>

text \<open>
  C9. When \<^verbatim>\<open>import_to_sqlserver\<close> returns a flag, the flag is true exactly when the
  database client exited with status zero, and the copy and the client were each run
  once, in that order. When the client exits with a non-zero status after a successful
  copy, the function prints the captured standard error, returns False and runs nothing
  again. When the copy exits with a non-zero status, the function raises at once: the
  only command run is the copy, the client is never started.
\<close>

theorem import_to_sqlserver_result:
  "(\<forall>b w'. import_to_sqlserver sql_file w = (Inr b, w') \<longrightarrow>
      (b \<longleftrightarrow> (\<exists>err. respond w (client_cmd sql_file) = Exited 0 err)) \<and>
      invoked w' = invoked w @ [copy_cmd sql_file, client_cmd sql_file]) \<and>
   (\<forall>rc err err'. respond w (copy_cmd sql_file) = Exited 0 err \<and>
      respond w (client_cmd sql_file) = Exited rc err' \<and> rc \<noteq> 0 \<longrightarrow>
      import_to_sqlserver sql_file w =
        (Inr False, w\<lparr>stdout := stdout w @ [Msg_importing, Msg_import_failed err'],
                       invoked := invoked w @ [copy_cmd sql_file, client_cmd sql_file]\<rparr>)) \<and>
   (\<forall>rc err. respond w (copy_cmd sql_file) = Exited rc err \<and> rc \<noteq> 0 \<longrightarrow>
      import_to_sqlserver sql_file w =
        (Inl (CalledProcessError rc),
         w\<lparr>stdout := stdout w @ [Msg_importing],
           invoked := invoked w @ [copy_cmd sql_file]\<rparr>))"
  by (auto simp: import_to_sqlserver_def subprocess_run_def print_def Let_def
           split: proc_outcome.splits if_splits)

theorem import_to_sqlserver_result_witness:
  "import_to_sqlserver ''sqlserver_import.sql'' (import_world 0 1) =
     (Inr False,
      (import_world 0 1)\<lparr>stdout := [Msg_importing, Msg_import_failed ''Login failed''],
        invoked := [copy_cmd ''sqlserver_import.sql'', client_cmd ''sqlserver_import.sql'']\<rparr>) \<and>
   import_to_sqlserver ''sqlserver_import.sql'' (import_world 1 0) =
     (Inl (CalledProcessError 1),
      (import_world 1 0)\<lparr>stdout := [Msg_importing],
        invoked := [copy_cmd ''sqlserver_import.sql'']\<rparr>) \<and>
   fst (import_to_sqlserver ''sqlserver_import.sql'' (import_world 0 0)) = Inr True"
proof -
  have d: "copy_cmd ''sqlserver_import.sql'' \<noteq> client_cmd ''sqlserver_import.sql''"
    by (simp add: copy_cmd_def client_cmd_def)
  have r1: "respond (import_world 0 1) (copy_cmd ''sqlserver_import.sql'') = Exited 0 []"
    "respond (import_world 0 1) (client_cmd ''sqlserver_import.sql'') = Exited 1 ''Login failed''"
    "respond (import_world 1 0) (copy_cmd ''sqlserver_import.sql'') = Exited 1 []"
    "respond (import_world 0 0) (client_cmd ''sqlserver_import.sql'') = Exited 0 ''Login failed''"
    using d by (simp_all add: import_world_def)
  obtain b w' where ok: "import_to_sqlserver ''sqlserver_import.sql'' (import_world 0 0) = (Inr b, w')"
    using d by (simp add: import_to_sqlserver_def subprocess_run_def print_def import_world_def)
  from import_to_sqlserver_result [of "''sqlserver_import.sql''" "import_world 0 0"] ok r1(4)
  have "b" by blast
  with ok have "fst (import_to_sqlserver ''sqlserver_import.sql'' (import_world 0 0)) = Inr True"
    by simp
  moreover from import_to_sqlserver_result [of "''sqlserver_import.sql''" "import_world 0 1"] r1(1,2)
  have "import_to_sqlserver ''sqlserver_import.sql'' (import_world 0 1) =
     (Inr False,
      (import_world 0 1)\<lparr>stdout := [Msg_importing, Msg_import_failed ''Login failed''],
        invoked := [copy_cmd ''sqlserver_import.sql'', client_cmd ''sqlserver_import.sql'']\<rparr>)"
    by (simp add: import_world_def)
  moreover from import_to_sqlserver_result [of "''sqlserver_import.sql''" "import_world 1 0"] r1(3)
  have "import_to_sqlserver ''sqlserver_import.sql'' (import_world 1 0) =
     (Inl (CalledProcessError 1),
      (import_world 1 0)\<lparr>stdout := [Msg_importing],
        invoked := [copy_cmd ''sqlserver_import.sql'']\<rparr>)"
    by (simp add: import_world_def)
  ultimately show ?thesis by blast
qed

end
